theory Spec2Isabelle
  imports Complex_Main "HOL-Library.Word" "HOL-Library.Log_Nat"
begin

unbundle bit_operations_syntax

section \<open>Results of running the code\<close>

text \<open>
  The exceptions the interpreter can raise in \<^verbatim>\<open>binary.py\<close>: \<^verbatim>\<open>bytes(...)\<close> raises
  ValueError on an element outside \<^verbatim>\<open>range(0, 256)\<close>, \<^verbatim>\<open>divider\<close> raises
  ZeroDivisionError, and \<^verbatim>\<open>adder\<close> reads its loop variable \<^verbatim>\<open>i\<close> after the loop,
  which is an UnboundLocalError when the loop body never ran.
\<close>

datatype error = ValueError | ZeroDivisionError | UnboundLocalError

text \<open>
  A call either does not return (\<open>None\<close>: the \<^verbatim>\<open>while\<close> loop of
  \<^verbatim>\<open>how_many_bytes\<close> can run forever), raises (\<open>Some (Inl e)\<close>) or returns a value
  (\<open>Some (Inr v)\<close>).
\<close>

type_synonym 'a result = "(error + 'a) option"

definition returnR :: "'a \<Rightarrow> 'a result" where
  "returnR v = Some (Inr v)"

definition raiseR :: "error \<Rightarrow> 'a result" where
  "raiseR e = Some (Inl e)"

definition bindR :: "'a result \<Rightarrow> ('a \<Rightarrow> 'b result) \<Rightarrow> 'b result" where
  "bindR r f = (case r of None \<Rightarrow> None | Some (Inl e) \<Rightarrow> Some (Inl e) | Some (Inr v) \<Rightarrow> f v)"

text \<open>A \<^verbatim>\<open>for\<close> loop over a finite sequence whose body can raise.\<close>

fun foldR :: "('a \<Rightarrow> 's \<Rightarrow> 's result) \<Rightarrow> 'a list \<Rightarrow> 's \<Rightarrow> 's result" where
  "foldR f [] s = returnR s"
| "foldR f (x # xs) s = bindR (f x s) (foldR f xs)"

section \<open>class Bits(bytes)\<close>

text \<open>
  A \<^verbatim>\<open>bytes\<close> object is a sequence of integers in \<^verbatim>\<open>range(0, 256)\<close>; a \<^verbatim>\<open>Bits\<close> object is
  a \<^verbatim>\<open>bytes\<close> object (it adds no attributes).
\<close>

type_synonym byte = "8 word"
type_synonym Bits = "byte list"

definition CHUNK :: nat where
  "CHUNK = 8"

text \<open>
  \<^verbatim>\<open>how_many_bytes(value, size)\<close>: \<^verbatim>\<open>l = 1; limit = (2 ** size) - 1;
  while value > limit: value >>= size; l += 1\<close>. With \<^verbatim>\<open>size = 0\<close> and a positive
  value the loop does not end.
\<close>

partial_function (option) how_many_bytes_loop :: "int \<Rightarrow> nat \<Rightarrow> int \<Rightarrow> nat \<Rightarrow> nat option" where
  "how_many_bytes_loop val sz limit l =
     (if val > limit then how_many_bytes_loop (drop_bit sz val) sz limit (l + 1)
      else Some l)"

definition how_many_bytes :: "int \<Rightarrow> nat \<Rightarrow> nat option" where
  "how_many_bytes val sz = how_many_bytes_loop val sz ((2 ^ sz) - 1) 1"

text \<open>
  \<^verbatim>\<open>number_to_bits(n, size)\<close>: the generator
  \<^verbatim>\<open>(bit_slice(n, i) for i in range(length))\<close> with \<^verbatim>\<open>mask = 2 ** size - 1\<close>,
  \<^verbatim>\<open>offset = lambda i: i * size\<close> and
  \<^verbatim>\<open>bit_slice = lambda n, i: (n & (mask << offset(i))) >> offset(i)\<close>.
\<close>

definition offset :: "nat \<Rightarrow> nat \<Rightarrow> nat" where
  "offset sz i = i * sz"

definition bit_slice :: "nat \<Rightarrow> int \<Rightarrow> nat \<Rightarrow> int" where
  "bit_slice sz n i =
     drop_bit (offset sz i) (n AND push_bit (offset sz i) (2 ^ sz - 1))"

definition number_to_bits :: "int \<Rightarrow> nat \<Rightarrow> int list option" where
  "number_to_bits n sz =
     (case how_many_bytes n sz of
        None \<Rightarrow> None
      | Some len \<Rightarrow> Some (map (bit_slice sz n) [0..<len]))"

text \<open>
  \<^verbatim>\<open>bytes.__new__(cls, iterable)\<close>: every element must be in \<^verbatim>\<open>range(0, 256)\<close>,
  otherwise ValueError.
\<close>

definition bytes_new :: "int list \<Rightarrow> Bits result" where
  "bytes_new xs =
     (if \<forall>x \<in> set xs. 0 \<le> x \<and> x < 256 then returnR (map word_of_int xs)
      else raiseR ValueError)"

text \<open>\<^verbatim>\<open>Bits(n)\<close>, that is \<^verbatim>\<open>Bits.__new__\<close>: \<^verbatim>\<open>bytes\<close> of \<^verbatim>\<open>number_to_bits(n)\<close>.\<close>

definition Bits_new :: "int \<Rightarrow> Bits result" where
  "Bits_new n =
     (case number_to_bits n CHUNK of None \<Rightarrow> None | Some xs \<Rightarrow> bytes_new xs)"

text \<open>
  \<^verbatim>\<open>to_number\<close>: \<^verbatim>\<open>sum(byte_ * (2 ** (8 * i)) for i, byte_ in enumerate(...))\<close>.
\<close>

definition to_number :: "Bits \<Rightarrow> int" where
  "to_number self = sum_list (map (\<lambda>(i, byte'). uint byte' * (2 ^ (8 * i))) (enumerate 0 self))"

text \<open>
  The inner loop of \<^verbatim>\<open>__iter__\<close>:
  \<^verbatim>\<open>while value: yield value & 1; value >>= 1; count += 1\<close>. The value is an element of
  a \<^verbatim>\<open>bytes\<close> object, hence not negative. The function returns what was yielded and the
  final \<^verbatim>\<open>count\<close>.
\<close>

function iter_while :: "nat \<Rightarrow> nat \<Rightarrow> int list \<times> nat" where
  "iter_while val count =
     (if val \<noteq> 0
      then (let (ys, count') = iter_while (drop_bit 1 val) (count + 1)
            in (int (val AND 1) # ys, count'))
      else ([], count))"
  by pat_completeness auto
termination
  by (relation "measure (\<lambda>(val, count). val)") (auto simp: drop_bit_eq_div)

text \<open>
  One round of the \<^verbatim>\<open>for byte_number, value in enumerate(...)\<close> loop of \<^verbatim>\<open>__iter__\<close>:
  the bits of the byte, then \<^verbatim>\<open>size - count\<close> zeros unless this is the last byte
  (\<^verbatim>\<open>range\<close> of a negative number is empty, as is \<open>replicate\<close> of a truncated
  difference).
\<close>

definition iter_byte :: "nat \<Rightarrow> int \<Rightarrow> nat \<times> byte \<Rightarrow> int list" where
  "iter_byte sz last_byte = (\<lambda>(byte_number, val).
     (let (ys, count) = iter_while (unat val) 0
      in ys @ (if int byte_number < last_byte then replicate (sz - count) 0 else [])))"

text \<open>\<^verbatim>\<open>Bits.__iter__\<close>, as the list of everything the generator yields.\<close>

definition Bits_iter :: "Bits \<Rightarrow> int list" where
  "Bits_iter self =
     (if self = [0] then [0]
      else concat (map (iter_byte CHUNK (int (length self) - 1)) (enumerate 0 self)))"

text \<open>\<^verbatim>\<open>Bits.__reversed__\<close>: \<^verbatim>\<open>list_ = list(self); for n in reversed(list_): yield n\<close>.\<close>

definition Bits_reversed :: "Bits \<Rightarrow> int list" where
  "Bits_reversed self = (let list' = Bits_iter self in rev list')"

text \<open>
  \<^verbatim>\<open>Bits.__lshift__\<close>: \<^verbatim>\<open>Bits(self.to_number() << other.to_number())\<close>. The shift count
  is a sum of non-negative terms.
\<close>

definition Bits_lshift :: "Bits \<Rightarrow> Bits \<Rightarrow> Bits result" where
  "Bits_lshift self other = Bits_new (push_bit (nat (to_number other)) (to_number self))"

section \<open>The arithmetic circuits\<close>

text \<open>\<^verbatim>\<open>fulladder\<close>: \<^verbatim>\<open>sum_ = (a ^ b) ^ cin; cout = a & b | cin & (a ^ b)\<close>.\<close>

definition fulladder :: "int \<Rightarrow> int \<Rightarrow> int \<Rightarrow> int \<times> int" where
  "fulladder a b cin =
     (let sum' = (a XOR b) XOR cin;
          cout = (a AND b) OR (cin AND (a XOR b))
      in (sum', cout))"

text \<open>\<^verbatim>\<open>itertools.zip_longest(n, m, fillvalue=v)\<close>.\<close>

fun zip_longest :: "'a list \<Rightarrow> 'a list \<Rightarrow> 'a \<Rightarrow> ('a \<times> 'a) list" where
  "zip_longest [] [] v = []"
| "zip_longest (x # xs) [] v = (x, v) # zip_longest xs [] v"
| "zip_longest [] (y # ys) v = (v, y) # zip_longest [] ys v"
| "zip_longest (x # xs) (y # ys) v = (x, y) # zip_longest xs ys v"

text \<open>
  \<^verbatim>\<open>adder\<close>. The loop state is \<^verbatim>\<open>(acc, cout, cin)\<close> and the loop variable \<^verbatim>\<open>i\<close>,
  unbound (\<open>None\<close>) until the body has run once; \<^verbatim>\<open>acc |= cout << (i + 1)\<close> after the
  loop reads it.
\<close>

fun adder_body :: "nat \<times> int \<times> int \<Rightarrow> int \<times> int \<times> int \<times> nat option
    \<Rightarrow> int \<times> int \<times> int \<times> nat option" where
  "adder_body (i, a, b) (acc, cout, cin, _) =
     (let (sum', cout') = fulladder a b cin;
          acc' = acc OR push_bit i sum';
          cin' = cout'
      in (acc', cout', cin', Some i))"

definition adder :: "Bits \<Rightarrow> Bits \<Rightarrow> int result" where
  "adder n m =
     (case fold adder_body (enumerate 0 (zip_longest (Bits_iter n) (Bits_iter m) 0))
             (0, 0, 0, None) of
        (acc, cout, cin, None) \<Rightarrow> raiseR UnboundLocalError
      | (acc, cout, cin, Some i) \<Rightarrow> returnR (acc OR push_bit (i + 1) cout))"

text \<open>
  \<^verbatim>\<open>subtractor\<close>: \<^verbatim>\<open>acc = 0; cout = inverter = 1\<close>, and in the loop
  \<^verbatim>\<open>b ^= inverter; sum_, cout = fulladder(a, b, cout); acc |= sum_ << i\<close>. The last
  carry is dropped.
\<close>

definition inverter :: int where
  "inverter = 1"

fun subtractor_body :: "nat \<times> int \<times> int \<Rightarrow> int \<times> int \<Rightarrow> int \<times> int" where
  "subtractor_body (i, a, b) (acc, cout) =
     (let b' = b XOR inverter;
          (sum', cout') = fulladder a b' cout
      in (acc OR push_bit i sum', cout'))"

definition subtractor :: "Bits \<Rightarrow> Bits \<Rightarrow> int" where
  "subtractor n m =
     fst (fold subtractor_body (enumerate 0 (zip_longest (Bits_iter n) (Bits_iter m) 0))
            (0, inverter))"

text \<open>
  \<^verbatim>\<open>multiplier\<close>: \<^verbatim>\<open>acc = Bits(0); shifter = 0\<close>, and for every bit of \<^verbatim>\<open>m\<close>:
  \<^verbatim>\<open>if bit == 1: acc = Bits(adder(acc, n << Bits(shifter)))\<close>, then
  \<^verbatim>\<open>shifter += 1\<close>.
\<close>

fun multiplier_body :: "Bits \<Rightarrow> int \<Rightarrow> Bits \<times> int \<Rightarrow> (Bits \<times> int) result" where
  "multiplier_body n bit' (acc, shifter) =
     bindR (if bit' = 1
            then bindR (Bits_new shifter) (\<lambda>s.
                 bindR (Bits_lshift n s) (\<lambda>shifted.
                 bindR (adder acc shifted) Bits_new))
            else returnR acc)
       (\<lambda>acc'. returnR (acc', shifter + 1))"

definition multiplier :: "Bits \<Rightarrow> Bits \<Rightarrow> int result" where
  "multiplier n m =
     bindR (Bits_new 0) (\<lambda>acc0.
     bindR (foldR (multiplier_body n) (Bits_iter m) (acc0, 0)) (\<lambda>(acc, shifter).
     returnR (to_number acc)))"

text \<open>
  \<^verbatim>\<open>divider\<close>: the zero check first, then for every bit of \<^verbatim>\<open>reversed(n)\<close>:
  \<^verbatim>\<open>quo <<= 1; rem <<= 1; if bit: rem ^= (1 << 0)\<close> and
  \<^verbatim>\<open>if rem >= m.to_number(): rem = subtractor(Bits(rem), m); quo ^= (1 << 0)\<close>.
\<close>

fun divider_body :: "Bits \<Rightarrow> int \<Rightarrow> int \<times> int \<Rightarrow> (int \<times> int) result" where
  "divider_body m bit' (rem, quo) =
     (let quo1 = push_bit 1 quo;
          rem1 = push_bit 1 rem;
          rem2 = (if bit' \<noteq> 0 then rem1 XOR push_bit 0 1 else rem1)
      in if rem2 \<ge> to_number m
         then bindR (Bits_new rem2) (\<lambda>r. returnR (subtractor r m, quo1 XOR push_bit 0 1))
         else returnR (rem2, quo1))"

definition divider :: "Bits \<Rightarrow> Bits \<Rightarrow> (int \<times> int) result" where
  "divider n m =
     (if to_number m = 0 then raiseR ZeroDivisionError
      else bindR (foldR (divider_body m) (Bits_reversed n) (0, 0)) (\<lambda>(rem, quo).
           returnR (quo, rem)))"

section \<open>Functions used to state and prove the properties\<close>

text \<open>
  The little-endian base-256 digits of an integer, the least significant first, with at
  least one digit. \<^verbatim>\<open>Bits(n)\<close> is shown below to return exactly this byte sequence.
\<close>

function byte_digits :: "int \<Rightarrow> Bits" where
  "byte_digits n =
     (if n > 255 then word_of_int n # byte_digits (n div 256) else [word_of_int n])"
  by pat_completeness auto
termination
  by (relation "measure nat") auto

text \<open>The value of a sequence of bits, the least significant first.\<close>

fun bl_val :: "int list \<Rightarrow> int" where
  "bl_val [] = 0"
| "bl_val (b # bs) = b + 2 * bl_val bs"

text \<open>What the inner loop of \<^verbatim>\<open>__iter__\<close> yields for one byte value.\<close>

function nat_bits :: "nat \<Rightarrow> int list" where
  "nat_bits v = (if v \<noteq> 0 then int (v AND 1) # nat_bits (drop_bit 1 v) else [])"
  by pat_completeness auto
termination
  by (relation "measure id") (auto simp: drop_bit_eq_div)

section \<open>Lemmas\<close>

declare byte_digits.simps [simp del]
declare nat_bits.simps [simp del]
declare iter_while.simps [simp del]


subsection \<open>Constructing a Bits object\<close>

lemma bindR_returnR [simp]: "bindR (returnR v) f = f v"
  by (simp add: bindR_def returnR_def)

lemma bindR_raiseR [simp]: "bindR (raiseR e) f = raiseR e"
  by (simp add: bindR_def raiseR_def)

lemma returnR_neq [simp]:
  "returnR v \<noteq> raiseR e" "raiseR e \<noteq> returnR v" "returnR v \<noteq> None" "raiseR e \<noteq> None"
  "(returnR v = returnR w) = (v = w)" "(raiseR e = raiseR e') = (e = e')"
  by (auto simp: returnR_def raiseR_def)

lemma how_many_bytes_loop_eq:
  "how_many_bytes_loop v 8 255 (Suc l) = Some (l + length (byte_digits v))"
proof (induction v arbitrary: l rule: byte_digits.induct)
  case (1 n)
  show ?case
  proof (cases "n > 255")
    case True
    have "how_many_bytes_loop n 8 255 (Suc l) = how_many_bytes_loop (n div 256) 8 255 (Suc (Suc l))"
      using True by (subst how_many_bytes_loop.simps) (simp add: drop_bit_eq_div)
    also have "\<dots> = Some (Suc l + length (byte_digits (n div 256)))"
      using 1 [OF True] by simp
    finally show ?thesis
      using True by (simp add: byte_digits.simps [of n])
  next
    case False
    then show ?thesis
      by (subst how_many_bytes_loop.simps) (simp add: byte_digits.simps [of n])
  qed
qed

lemma how_many_bytes_CHUNK: "how_many_bytes n CHUNK = Some (length (byte_digits n))"
  using how_many_bytes_loop_eq [of n 0] by (simp add: how_many_bytes_def CHUNK_def)

lemma bit_slice_CHUNK: "bit_slice CHUNK n i = take_bit 8 (drop_bit (8 * i) n)"
proof -
  have "drop_bit (i * 8) (push_bit (i * 8) (255::int)) = 255"
    by (simp add: drop_bit_push_bit)
  then show ?thesis
    by (simp add: bit_slice_def offset_def CHUNK_def take_bit_eq_mask mask_eq_exp_minus_1 mult.commute)
qed

lemma bit_slice_range: "0 \<le> bit_slice CHUNK n i \<and> bit_slice CHUNK n i < 256"
  using take_bit_int_less_exp [of 8 "drop_bit (8 * i) n"] by (simp add: bit_slice_CHUNK)

lemma word_of_bit_slice:
  "(word_of_int (bit_slice CHUNK n i) :: byte) = word_of_int (drop_bit (8 * i) n)"
  by (simp add: bit_slice_CHUNK word_of_int_eq_iff)

lemma map_slices_eq:
  "map (\<lambda>i. (word_of_int (drop_bit (8 * (i + k)) n) :: byte)) [0..<length (byte_digits (drop_bit (8 * k) n))]
     = byte_digits (drop_bit (8 * k) n)"
proof (induction "drop_bit (8 * k) n" arbitrary: k rule: byte_digits.induct)
  case 1
  let ?v = "drop_bit (8 * k) n"
  show ?case
  proof (cases "?v > 255")
    case True
    have d: "?v div 256 = drop_bit (8 * Suc k) n"
      by (simp add: drop_bit_eq_div power_add mult.commute div_mult2_eq algebra_simps
            flip: zdiv_zmult2_eq)
    have len: "length (byte_digits ?v) = Suc (length (byte_digits (drop_bit (8 * Suc k) n)))"
      using True d by (subst byte_digits.simps) simp
    have ih: "map (\<lambda>i. (word_of_int (drop_bit (8 * (i + Suc k)) n) :: byte))
                [0..<length (byte_digits (drop_bit (8 * Suc k) n))]
              = byte_digits (drop_bit (8 * Suc k) n)"
      using 1 [OF True d] .
    have "map (\<lambda>i. (word_of_int (drop_bit (8 * (i + k)) n) :: byte)) [0..<length (byte_digits ?v)]
          = word_of_int ?v # map (\<lambda>i. word_of_int (drop_bit (8 * (i + Suc k)) n))
                [0..<length (byte_digits (drop_bit (8 * Suc k) n))]"
      unfolding len by (simp add: map_upt_Suc add.assoc del: upt_Suc)
    also have "\<dots> = word_of_int ?v # byte_digits (?v div 256)"
      using ih d by simp
    finally show ?thesis
      using True by (subst (2) byte_digits.simps) simp
  next
    case False
    then show ?thesis
      by (simp add: byte_digits.simps [of ?v])
  qed
qed

lemma Bits_new_eq: "Bits_new n = returnR (byte_digits n)"
proof -
  have "map (\<lambda>x. (word_of_int x :: byte)) (map (bit_slice CHUNK n) [0..<length (byte_digits n)])
        = byte_digits n"
    using map_slices_eq [of 0 n] by (simp add: word_of_bit_slice comp_def)
  moreover have "\<forall>x \<in> set (map (bit_slice CHUNK n) [0..<length (byte_digits n)]). 0 \<le> x \<and> x < 256"
    using bit_slice_range by auto
  ultimately show ?thesis
    by (simp add: Bits_new_def number_to_bits_def how_many_bytes_CHUNK bytes_new_def)
qed

subsection \<open>The bit view\<close>

lemma iter_while_eq: "iter_while v c = (nat_bits v, c + length (nat_bits v))"
proof (induction v arbitrary: c rule: nat_bits.induct)
  case (1 v)
  show ?case
  proof (cases "v = 0")
    case True
    then show ?thesis
      by (simp add: iter_while.simps [of 0] nat_bits.simps [of 0])
  next
    case False
    then show ?thesis
      using 1 [OF False, of "c + 1"]
      by (simp add: iter_while.simps [of v c] nat_bits.simps [of v])
  qed
qed

lemma nat_bits_0 [simp]: "nat_bits 0 = []"
  by (simp add: nat_bits.simps)

lemma nat_bits_pos: "v \<noteq> 0 \<Longrightarrow> nat_bits v = int (v mod 2) # nat_bits (v div 2)"
  by (subst nat_bits.simps) (simp add: and_one_eq drop_bit_eq_div)

lemma bl_val_nat_bits: "bl_val (nat_bits v) = int v"
proof (induction v rule: nat_bits.induct)
  case (1 v)
  show ?case
  proof (cases "v = 0")
    case True
    then show ?thesis by simp
  next
    case False
    have "bl_val (nat_bits v) = int (v mod 2) + 2 * int (v div 2)"
      using 1 [OF False] False by (simp add: nat_bits_pos drop_bit_eq_div)
    then show ?thesis
      by (simp add: zmod_int zdiv_int)
  qed
qed

lemma nat_bits_bits: "set (nat_bits v) \<subseteq> {0, 1}"
proof (induction v rule: nat_bits.induct)
  case (1 v)
  show ?case
  proof (cases "v = 0")
    case True
    then show ?thesis by simp
  next
    case False
    have "v mod 2 = 0 \<or> v mod 2 = 1"
      by arith
    then show ?thesis
      using 1 [OF False] False by (auto simp: nat_bits_pos drop_bit_eq_div)
  qed
qed

lemma length_nat_bits_le: "v < 2 ^ k \<Longrightarrow> length (nat_bits v) \<le> k"
proof (induction v arbitrary: k rule: nat_bits.induct)
  case (1 v)
  show ?case
  proof (cases "v = 0")
    case True
    then show ?thesis by simp
  next
    case False
    with "1.prems" obtain j where k: "k = Suc j"
      by (cases k) auto
    with "1.prems" have "v div 2 < 2 ^ j"
      by auto
    then have "length (nat_bits (v div 2)) \<le> j"
      using 1(1) [OF False, of j] by (simp add: drop_bit_eq_div)
    then show ?thesis
      using False k by (simp add: nat_bits_pos)
  qed
qed

lemma nat_bits_bounds:
  "v \<noteq> 0 \<Longrightarrow> v < 2 ^ length (nat_bits v) \<and> 2 ^ length (nat_bits v) \<le> 2 * v
     \<and> last (nat_bits v) = 1"
proof (induction v rule: nat_bits.induct)
  case (1 v)
  show ?case
  proof (cases "v div 2 = 0")
    case True
    with "1.prems" have "v = 1"
      by auto
    then show ?thesis
      by (simp add: nat_bits_pos)
  next
    case False
    have ih: "v div 2 < 2 ^ length (nat_bits (v div 2))"
      "2 ^ length (nat_bits (v div 2)) \<le> 2 * (v div 2)"
      "last (nat_bits (v div 2)) = 1"
      using 1(1) [OF "1.prems"] False by (simp_all add: drop_bit_eq_div)
    have ne: "nat_bits (v div 2) \<noteq> []"
      using False by (simp add: nat_bits_pos)
    show ?thesis
      using ih ne "1.prems" by (auto simp: nat_bits_pos [of v])
  qed
qed

lemma bl_val_append: "bl_val (xs @ ys) = bl_val xs + 2 ^ length xs * bl_val ys"
  by (induction xs) (simp_all add: algebra_simps)

lemma bl_val_replicate_0 [simp]: "bl_val (replicate k 0) = 0"
  by (induction k) simp_all

lemma iter_byte_eq:
  "iter_byte sz last_byte (byte_number, b) =
     nat_bits (unat b) @
     (if int byte_number < last_byte then replicate (sz - length (nat_bits (unat b))) 0 else [])"
  by (simp add: iter_byte_def iter_while_eq)

lemma length_nat_bits_byte: "length (nat_bits (unat (b :: byte))) \<le> 8"
proof -
  have "unat b < 2 ^ 8"
    using unsigned_less [of b] by simp
  then show ?thesis
    by (rule length_nat_bits_le)
qed

lemma to_number_Nil [simp]: "to_number [] = 0"
  by (simp add: to_number_def)

lemma to_number_Cons: "to_number (b # bs) = uint b + 256 * to_number bs"
proof -
  have "(\<lambda>(i, byte'). uint (byte' :: byte) * 2 ^ (8 * i)) \<circ> apfst Suc
        = (\<lambda>p. 256 * (case p of (i, byte') \<Rightarrow> uint byte' * 2 ^ (8 * i)))"
    by (auto simp: fun_eq_iff power_add)
  then show ?thesis
    by (simp add: to_number_def enumerate_Suc_eq sum_list_const_mult)
qed

lemma iter_concat_val:
  "int k + int (length bs) = last_byte + 1 \<Longrightarrow>
     bl_val (concat (map (iter_byte CHUNK last_byte) (enumerate k bs))) = to_number bs"
proof (induction bs arbitrary: k)
  case Nil
  then show ?case by simp
next
  case (Cons b bs)
  have ih: "bl_val (concat (map (iter_byte CHUNK last_byte) (enumerate (Suc k) bs))) = to_number bs"
    using Cons.prems by (intro Cons.IH) simp
  show ?case
  proof (cases "bs = []")
    case True
    with Cons.prems have "\<not> int k < last_byte"
      by simp
    then show ?thesis
      using True by (simp add: iter_byte_eq bl_val_nat_bits to_number_Cons)
  next
    case False
    with Cons.prems have lt: "int k < last_byte"
      by (cases bs) auto
    define chunk where "chunk = iter_byte CHUNK last_byte (k, b)"
    have chunk: "chunk = nat_bits (unat b) @ replicate (8 - length (nat_bits (unat b))) 0"
      using lt by (simp add: chunk_def iter_byte_eq CHUNK_def)
    have len: "length chunk = 8"
      using length_nat_bits_byte [of b] by (simp add: chunk)
    have val: "bl_val chunk = uint b"
      by (simp add: chunk bl_val_append bl_val_nat_bits)
    have "bl_val (chunk @ concat (map (iter_byte CHUNK last_byte) (enumerate (Suc k) bs)))
          = uint b + 256 * to_number bs"
      by (simp add: bl_val_append len val ih)
    then show ?thesis
      by (simp add: to_number_Cons chunk_def)
  qed
qed

lemma iter_concat_bits:
  "set (concat (map (iter_byte sz last_byte) (enumerate k bs))) \<subseteq> {0, 1}"
proof (induction bs arbitrary: k)
  case Nil
  then show ?case by simp
next
  case (Cons b bs)
  show ?case
    using Cons.IH [of "Suc k"] nat_bits_bits [of "unat b"]
    by (auto simp: iter_byte_eq)
qed

lemma Bits_iter_val: "bl_val (Bits_iter a) = to_number a"
  by (simp add: Bits_iter_def iter_concat_val to_number_Cons)

lemma Bits_iter_bits: "set (Bits_iter a) \<subseteq> {0, 1}"
  using iter_concat_bits by (simp add: Bits_iter_def)

subsection \<open>Canonical encodings\<close>

lemma byte_digits_small: "n \<le> 255 \<Longrightarrow> byte_digits n = [word_of_int n]"
  by (simp add: byte_digits.simps)

lemma byte_digits_big: "n > 255 \<Longrightarrow> byte_digits n = word_of_int n # byte_digits (n div 256)"
  by (simp add: byte_digits.simps)

lemma byte_digits_0 [simp]: "byte_digits 0 = [0]"
  by (simp add: byte_digits_small)

lemma byte_digits_neq_Nil [simp]: "byte_digits n \<noteq> []"
  by (cases "n > 255") (simp_all add: byte_digits_small byte_digits_big)

lemma uint_byte_of_int: "uint (word_of_int n :: byte) = n mod 256"
  by (simp add: uint_word_of_int)

lemma to_number_byte_digits: "0 \<le> n \<Longrightarrow> to_number (byte_digits n) = n"
proof (induction n rule: byte_digits.induct)
  case (1 n)
  show ?case
  proof (cases "n > 255")
    case True
    then have "to_number (byte_digits (n div 256)) = n div 256"
      using 1 by simp
    then show ?thesis
      using True by (simp add: byte_digits_big to_number_Cons uint_byte_of_int)
  next
    case False
    then show ?thesis
      using "1.prems" by (simp add: byte_digits_small to_number_Cons uint_byte_of_int)
  qed
qed

lemma last_byte_digits: "0 < n \<Longrightarrow> last (byte_digits n) \<noteq> 0"
proof (induction n rule: byte_digits.induct)
  case (1 n)
  show ?case
  proof (cases "n > 255")
    case True
    then have "last (byte_digits (n div 256)) \<noteq> 0"
      using 1 by simp
    then show ?thesis
      using True by (simp add: byte_digits_big)
  next
    case False
    then have "uint (word_of_int n :: byte) = n"
      using "1.prems" by (simp add: uint_byte_of_int)
    then have "(word_of_int n :: byte) \<noteq> 0"
      using "1.prems" by auto
    then show ?thesis
      using False by (simp add: byte_digits_small)
  qed
qed

lemma byte_digits_lower: "0 < n \<Longrightarrow> 256 ^ (length (byte_digits n) - 1) \<le> n"
proof (induction n rule: byte_digits.induct)
  case (1 n)
  show ?case
  proof (cases "n > 255")
    case True
    then have "256 ^ (length (byte_digits (n div 256)) - 1) \<le> n div 256"
      using 1 by simp
    then have "256 * 256 ^ (length (byte_digits (n div 256)) - 1) \<le> n"
      by linarith
    moreover have "length (byte_digits (n div 256)) \<noteq> 0"
      by simp
    ultimately show ?thesis
      using True by (simp add: byte_digits_big flip: power_Suc)
  next
    case False
    then show ?thesis
      using "1.prems" by (simp add: byte_digits_small)
  qed
qed

lemma to_number_bounds: "0 \<le> to_number bs \<and> to_number bs < 256 ^ length bs"
proof (induction bs)
  case Nil
  then show ?case by simp
next
  case (Cons b bs)
  have "uint b < 256"
    using unsigned_less [of b] by simp
  moreover have "0 \<le> uint b"
    by simp
  ultimately show ?case
    using Cons by (simp add: to_number_Cons)
qed

lemma byte_digits_minimal:
  assumes "0 < n" and "to_number bs = n"
  shows "length (byte_digits n) \<le> length bs"
proof (rule ccontr)
  assume "\<not> length (byte_digits n) \<le> length bs"
  then have "length bs \<le> length (byte_digits n) - 1"
    by simp
  then have "(256::int) ^ length bs \<le> 256 ^ (length (byte_digits n) - 1)"
    by (intro power_increasing) simp_all
  also have "\<dots> \<le> n"
    using assms(1) by (rule byte_digits_lower)
  finally show False
    using to_number_bounds [of bs] assms(2) by simp
qed

lemma iter_concat_canonical:
  "0 < n \<Longrightarrow> int k + int (length (byte_digits n)) = last_byte + 1 \<Longrightarrow>
     (let xs = concat (map (iter_byte CHUNK last_byte) (enumerate k (byte_digits n)))
      in n < 2 ^ length xs \<and> 2 ^ length xs \<le> 2 * n \<and> xs \<noteq> [] \<and> last xs = 1)"
proof (induction n arbitrary: k rule: byte_digits.induct)
  case (1 n)
  show ?case
  proof (cases "n > 255")
    case True
    define b :: byte where "b = word_of_int n"
    define rest where
      "rest = concat (map (iter_byte CHUNK last_byte) (enumerate (Suc k) (byte_digits (n div 256))))"
    have lt: "int k < last_byte"
      using "1.prems"(2) True by (simp add: byte_digits_big) (cases "byte_digits (n div 256)"; simp)
    have ih: "n div 256 < 2 ^ length rest" "2 ^ length rest \<le> 2 * (n div 256)"
      "rest \<noteq> []" "last rest = 1"
      using 1(1) [OF True, of "Suc k"] True "1.prems"(2)
      by (simp_all add: byte_digits_big rest_def Let_def)
    define chunk where "chunk = iter_byte CHUNK last_byte (k, b)"
    have "length chunk = 8"
      using lt length_nat_bits_byte [of b] by (simp add: chunk_def iter_byte_eq CHUNK_def)
    then have len: "length (chunk @ rest) = 8 + length rest"
      by simp
    have "n < 256 * 2 ^ length rest" "256 * 2 ^ length rest \<le> 2 * n"
      using ih(1,2) by linarith+
    then have "n < 2 ^ length (chunk @ rest)" "2 ^ length (chunk @ rest) \<le> 2 * n"
      unfolding len by (simp_all add: power_add)
    moreover have "chunk @ rest \<noteq> []" "last (chunk @ rest) = 1"
      using ih(3,4) by simp_all
    ultimately show ?thesis
      using True by (simp add: byte_digits_big chunk_def rest_def b_def Let_def)
  next
    case False
    then have k: "\<not> int k < last_byte"
      using "1.prems"(2) by (simp add: byte_digits_small)
    have "unat (word_of_int n :: byte) = nat n"
      using False "1.prems"(1) by (simp add: unat_eq_nat_uint uint_byte_of_int)
    moreover have "nat n \<noteq> 0"
      using "1.prems"(1) by simp
    moreover have "nat_bits (nat n) \<noteq> []"
      using \<open>nat n \<noteq> 0\<close> by (simp add: nat_bits_pos)
    moreover have "n < 2 ^ length (nat_bits (nat n))"
    proof -
      have "int (nat n) < int (2 ^ length (nat_bits (nat n)))"
        using nat_bits_bounds [OF \<open>nat n \<noteq> 0\<close>] by (simp only: of_nat_less_iff)
      then show ?thesis
        using "1.prems"(1) by simp
    qed
    moreover have "2 ^ length (nat_bits (nat n)) \<le> 2 * n"
    proof -
      have "int (2 ^ length (nat_bits (nat n))) \<le> int (2 * nat n)"
        using nat_bits_bounds [OF \<open>nat n \<noteq> 0\<close>] by (simp only: of_nat_le_iff)
      then show ?thesis
        using "1.prems"(1) by simp
    qed
    ultimately show ?thesis
      using False k nat_bits_bounds [OF \<open>nat n \<noteq> 0\<close>]
      by (simp add: byte_digits_small iter_byte_eq Let_def)
  qed
qed

lemma byte_digits_neq_zero: "0 < n \<Longrightarrow> byte_digits n \<noteq> [0]"
  using last_byte_digits [of n] by auto

lemma Bits_iter_canonical:
  assumes "0 < n"
  shows "n < 2 ^ length (Bits_iter (byte_digits n))"
    and "2 ^ length (Bits_iter (byte_digits n)) \<le> 2 * n"
    and "Bits_iter (byte_digits n) \<noteq> []"
    and "last (Bits_iter (byte_digits n)) = 1"
  using iter_concat_canonical [OF assms, of 0 "int (length (byte_digits n)) - 1"]
    byte_digits_neq_zero [OF assms]
  by (simp_all add: Bits_iter_def Let_def)

lemma Bits_iter_zero [simp]: "Bits_iter [0] = [0]"
  by (simp add: Bits_iter_def)

subsection \<open>Ripple-carry loops\<close>

lemma fulladder_bits:
  "a \<in> {0, 1} \<Longrightarrow> b \<in> {0, 1} \<Longrightarrow> c \<in> {0, 1} \<Longrightarrow>
     fulladder a b c = ((a + b + c) mod 2, (a + b + c) div 2)"
  by (auto simp: fulladder_def)

lemma xor_inverter_bit: "b \<in> {0, 1} \<Longrightarrow> b XOR inverter = 1 - b"
  by (auto simp: inverter_def)

lemma or_push_bit_eq_add:
  fixes acc s :: int
  assumes "0 \<le> acc" and "acc < 2 ^ i"
  shows "acc OR push_bit i s = acc + 2 ^ i * s"
proof -
  have "take_bit i acc = acc"
    using assms by (simp add: take_bit_int_eq_self)
  then have "acc AND push_bit i s = take_bit i acc AND push_bit i s"
    by simp
  also have "\<dots> = 0"
    by (rule bit_eqI) (auto simp: bit_simps)
  finally have "acc + push_bit i s = acc OR push_bit i s"
    by (rule disjunctive_add_eq_or)
  then show ?thesis
    by (simp add: push_bit_eq_mult mult.commute)
qed

lemma bit_plus_double_mod:
  fixes s x :: int
  assumes "s \<in> {0, 1}"
  shows "(s + 2 * x) mod 2 ^ Suc l = s + 2 * (x mod 2 ^ l)"
    and "(s + 2 * x) div 2 ^ Suc l = x div 2 ^ l"
proof -
  have d: "(s + 2 * x) div 2 = x" and m: "(s + 2 * x) mod 2 = s"
    using assms by auto
  have "(s + 2 * x) mod (2 * 2 ^ l) = 2 * ((s + 2 * x) div 2 mod 2 ^ l) + (s + 2 * x) mod 2"
    by (rule zmod_zmult2_eq) simp
  then show "(s + 2 * x) mod 2 ^ Suc l = s + 2 * (x mod 2 ^ l)"
    unfolding d m by simp
  have "(s + 2 * x) div (2 * 2 ^ l) = (s + 2 * x) div 2 div 2 ^ l"
    by (rule zdiv_zmult2_eq) simp
  then show "(s + 2 * x) div 2 ^ Suc l = x div 2 ^ l"
    by (simp add: d)
qed

lemma bl_val_bounds: "set xs \<subseteq> {0, 1} \<Longrightarrow> 0 \<le> bl_val xs \<and> bl_val xs < 2 ^ length xs"
  by (induction xs) auto


lemma fold_adder_body:
  "set (map fst ps) \<subseteq> {0, 1} \<Longrightarrow> set (map snd ps) \<subseteq> {0, 1} \<Longrightarrow> c \<in> {0, 1} \<Longrightarrow>
   0 \<le> acc \<Longrightarrow> acc < 2 ^ i \<Longrightarrow>
     fold adder_body (enumerate i ps) (acc, c0, c, io) =
       (let t = bl_val (map fst ps) + bl_val (map snd ps) + c
        in (acc + 2 ^ i * (t mod 2 ^ length ps),
            if ps = [] then c0 else t div 2 ^ length ps,
            t div 2 ^ length ps,
            if ps = [] then io else Some (i + length ps - 1)))"
proof (induction ps arbitrary: i acc c c0 io)
  case Nil
  then show ?case by simp
next
  case (Cons p ps)
  obtain a b where p: "p = (a, b)"
    by (cases p)
  have bits: "a \<in> {0, 1}" "b \<in> {0, 1}"
    using Cons.prems(1,2) by (auto simp: p)
  define s where "s = (a + b + c) mod 2"
  define c' where "c' = (a + b + c) div 2"
  define x where "x = bl_val (map fst ps) + bl_val (map snd ps) + c'"
  have fa: "fulladder a b c = (s, c')"
    using bits Cons.prems(3) by (simp add: fulladder_bits s_def c'_def)
  have s: "s \<in> {0, 1}" and c': "c' \<in> {0, 1}"
    using bits Cons.prems(3) by (auto simp: s_def c'_def)
  have acc': "acc OR push_bit i s = acc + 2 ^ i * s"
    using Cons.prems(4,5) by (rule or_push_bit_eq_add)
  have acc'_bounds: "0 \<le> acc + 2 ^ i * s" "acc + 2 ^ i * s < 2 ^ Suc i"
    using s Cons.prems(4,5) by auto
  have t: "bl_val (map fst (p # ps)) + bl_val (map snd (p # ps)) + c = s + 2 * x"
    by (simp add: p x_def s_def c'_def)
  have step: "fold adder_body (enumerate i (p # ps)) (acc, c0, c, io)
      = fold adder_body (enumerate (Suc i) ps) (acc + 2 ^ i * s, c', c', Some i)"
    by (simp add: p fa acc')
  have "fold adder_body (enumerate (Suc i) ps) (acc + 2 ^ i * s, c', c', Some i)
      = (acc + 2 ^ i * s + 2 ^ Suc i * (x mod 2 ^ length ps),
         if ps = [] then c' else x div 2 ^ length ps,
         x div 2 ^ length ps,
         if ps = [] then Some i else Some (Suc i + length ps - 1))"
    using Cons.IH [of c' "acc + 2 ^ i * s" "Suc i" c' "Some i"] Cons.prems(1,2) c' acc'_bounds
    by (simp add: x_def Let_def)
  also have "\<dots> = (acc + 2 ^ i * ((s + 2 * x) mod 2 ^ Suc (length ps)),
         (s + 2 * x) div 2 ^ Suc (length ps),
         (s + 2 * x) div 2 ^ Suc (length ps),
         Some (i + length ps))"
    unfolding bit_plus_double_mod [OF s]
    by (cases "ps = []") (simp_all add: x_def algebra_simps)
  finally show ?case
    unfolding step t [symmetric] by (simp add: Let_def)
qed

lemma fold_subtractor_body:
  "set (map fst ps) \<subseteq> {0, 1} \<Longrightarrow> set (map snd ps) \<subseteq> {0, 1} \<Longrightarrow> c \<in> {0, 1} \<Longrightarrow>
   0 \<le> acc \<Longrightarrow> acc < 2 ^ i \<Longrightarrow>
     fold subtractor_body (enumerate i ps) (acc, c) =
       (let t = bl_val (map fst ps) + (2 ^ length ps - 1 - bl_val (map snd ps)) + c
        in (acc + 2 ^ i * (t mod 2 ^ length ps), t div 2 ^ length ps))"
proof (induction ps arbitrary: i acc c)
  case Nil
  then show ?case by simp
next
  case (Cons p ps)
  obtain a b where p: "p = (a, b)"
    by (cases p)
  have bits: "a \<in> {0, 1}" "b \<in> {0, 1}"
    using Cons.prems(1,2) by (auto simp: p)
  define s where "s = (a + (1 - b) + c) mod 2"
  define c' where "c' = (a + (1 - b) + c) div 2"
  define x where "x = bl_val (map fst ps) + (2 ^ length ps - 1 - bl_val (map snd ps)) + c'"
  have nb: "1 - b \<in> {0, 1}"
    using bits by auto
  have fa: "fulladder a (b XOR inverter) c = (s, c')"
    using bits(1) nb Cons.prems(3) by (simp add: xor_inverter_bit [OF bits(2)] fulladder_bits s_def c'_def)
  have s: "s \<in> {0, 1}" and c': "c' \<in> {0, 1}"
    using bits Cons.prems(3) by (auto simp: s_def c'_def)
  have acc': "acc OR push_bit i s = acc + 2 ^ i * s"
    using Cons.prems(4,5) by (rule or_push_bit_eq_add)
  have acc'_bounds: "0 \<le> acc + 2 ^ i * s" "acc + 2 ^ i * s < 2 ^ Suc i"
    using s Cons.prems(4,5) by auto
  have t: "bl_val (map fst (p # ps)) + (2 ^ length (p # ps) - 1 - bl_val (map snd (p # ps))) + c
      = s + 2 * x"
    by (simp add: p x_def s_def c'_def)
  have step: "fold subtractor_body (enumerate i (p # ps)) (acc, c)
      = fold subtractor_body (enumerate (Suc i) ps) (acc + 2 ^ i * s, c')"
    by (simp add: p fa acc')
  have "fold subtractor_body (enumerate (Suc i) ps) (acc + 2 ^ i * s, c')
      = (acc + 2 ^ i * s + 2 ^ Suc i * (x mod 2 ^ length ps), x div 2 ^ length ps)"
    using Cons.IH [of c' "acc + 2 ^ i * s" "Suc i"] Cons.prems(1,2) c' acc'_bounds
    by (simp add: x_def Let_def)
  also have "\<dots> = (acc + 2 ^ i * ((s + 2 * x) mod 2 ^ Suc (length ps)),
         (s + 2 * x) div 2 ^ Suc (length ps))"
    unfolding bit_plus_double_mod [OF s] by (simp add: algebra_simps)
  finally show ?case
    unfolding step t [symmetric] by (simp add: Let_def)
qed

subsection \<open>Adder and subtractor\<close>

lemma bl_val_zip_longest_fst: "bl_val (map fst (zip_longest xs ys 0)) = bl_val xs"
  by (induction xs ys "0::int" rule: zip_longest.induct) simp_all

lemma bl_val_zip_longest_snd: "bl_val (map snd (zip_longest xs ys 0)) = bl_val ys"
  by (induction xs ys "0::int" rule: zip_longest.induct) simp_all

lemma length_zip_longest: "length (zip_longest xs ys v) = max (length xs) (length ys)"
  by (induction xs ys v rule: zip_longest.induct) simp_all

lemma zip_longest_bits:
  "set xs \<subseteq> {0, 1} \<Longrightarrow> set ys \<subseteq> {0, 1} \<Longrightarrow>
     set (map fst (zip_longest xs ys (0::int))) \<subseteq> {0, 1}
     \<and> set (map snd (zip_longest xs ys 0)) \<subseteq> {0, 1}"
  by (induction xs ys "0::int" rule: zip_longest.induct) simp_all

lemma zip_longest_Nil_iff: "zip_longest xs ys v = [] \<longleftrightarrow> xs = [] \<and> ys = []"
  by (induction xs ys v rule: zip_longest.induct) simp_all

lemma Bits_iter_Nil_iff: "Bits_iter n = [] \<longleftrightarrow> n = []"
proof (cases n)
  case Nil
  then show ?thesis
    by (simp add: Bits_iter_def)
next
  case (Cons b bs)
  show ?thesis
  proof (cases bs)
    case Nil
    have "b \<noteq> 0 \<Longrightarrow> nat_bits (unat b) \<noteq> []"
      by (simp add: nat_bits_pos unat_eq_0)
    then show ?thesis
      using Nil Cons by (simp add: Bits_iter_def iter_byte_eq)
  next
    case (Cons b' bs')
    have "nat_bits (unat b) = [] \<Longrightarrow> replicate (8 - length (nat_bits (unat b))) (0::int) \<noteq> []"
      by simp
    then show ?thesis
      using Cons \<open>n = b # bs\<close> by (auto simp: Bits_iter_def iter_byte_eq CHUNK_def)
  qed
qed

lemma adder_eq:
  "adder n m =
     (if n = [] \<and> m = [] then raiseR UnboundLocalError
      else returnR (to_number n + to_number m))"
proof -
  define ps where "ps = zip_longest (Bits_iter n) (Bits_iter m) 0"
  define t where "t = to_number n + to_number m"
  have bits: "set (map fst ps) \<subseteq> {0, 1}" "set (map snd ps) \<subseteq> {0, 1}"
    using zip_longest_bits [OF Bits_iter_bits Bits_iter_bits, of n m] by (simp_all add: ps_def)
  have val: "bl_val (map fst ps) + bl_val (map snd ps) + 0 = t"
    by (simp add: ps_def t_def bl_val_zip_longest_fst bl_val_zip_longest_snd Bits_iter_val)
  have fold_eq: "fold adder_body (enumerate 0 ps) (0, 0, 0, None) =
      (t mod 2 ^ length ps, if ps = [] then 0 else t div 2 ^ length ps, t div 2 ^ length ps,
       if ps = [] then None else Some (length ps - 1))"
    using fold_adder_body [OF bits, of 0 0 0 0 None] unfolding val by (simp add: Let_def)
  show ?thesis
  proof (cases "ps = []")
    case True
    then have "n = [] \<and> m = []"
      by (simp add: ps_def zip_longest_Nil_iff Bits_iter_Nil_iff)
    then show ?thesis
      unfolding adder_def ps_def [symmetric] fold_eq using True by simp
  next
    case False
    then have ne: "\<not> (n = [] \<and> m = [])"
      by (simp add: ps_def zip_longest_Nil_iff Bits_iter_Nil_iff)
    have len: "length ps - 1 + 1 = length ps"
      using False by (cases ps) simp_all
    have "0 \<le> t mod 2 ^ length ps" "t mod 2 ^ length ps < 2 ^ length ps"
      by simp_all
    then have "t mod 2 ^ length ps OR push_bit (length ps) (t div 2 ^ length ps)
        = t mod 2 ^ length ps + 2 ^ length ps * (t div 2 ^ length ps)"
      by (rule or_push_bit_eq_add)
    also have "\<dots> = t"
      by simp
    finally have or_eq: "t mod 2 ^ length ps OR push_bit (length ps) (t div 2 ^ length ps) = t" .
    have "adder n m =
        returnR (t mod 2 ^ length ps OR push_bit (length ps - 1 + 1) (t div 2 ^ length ps))"
      unfolding adder_def ps_def [symmetric] fold_eq
      by (simp only: False if_False prod.case option.case)
    then have "adder n m = returnR t"
      unfolding len or_eq .
    then show ?thesis
      using ne by (simp add: t_def)
  qed
qed

lemma subtractor_eq:
  "subtractor n m =
     (to_number n - to_number m) mod 2 ^ max (length (Bits_iter n)) (length (Bits_iter m))"
proof -
  define ps where "ps = zip_longest (Bits_iter n) (Bits_iter m) 0"
  have bits: "set (map fst ps) \<subseteq> {0, 1}" "set (map snd ps) \<subseteq> {0, 1}"
    using zip_longest_bits [OF Bits_iter_bits Bits_iter_bits, of n m] by (simp_all add: ps_def)
  have val: "bl_val (map fst ps) + (2 ^ length ps - 1 - bl_val (map snd ps)) + 1
      = to_number n - to_number m + 2 ^ length ps"
    by (simp add: ps_def bl_val_zip_longest_fst bl_val_zip_longest_snd Bits_iter_val)
  have "fold subtractor_body (enumerate 0 ps) (0, 1) =
      ((to_number n - to_number m + 2 ^ length ps) mod 2 ^ length ps,
       (to_number n - to_number m + 2 ^ length ps) div 2 ^ length ps)"
    using fold_subtractor_body [OF bits, of 1 0 0] unfolding val by (simp add: Let_def)
  then have "subtractor n m = (to_number n - to_number m) mod 2 ^ length ps"
    by (simp add: subtractor_def inverter_def flip: ps_def)
  then show ?thesis
    by (simp add: ps_def length_zip_longest)
qed

lemma length_Bits_iter_mono:
  assumes "0 \<le> a" and "a \<le> b"
  shows "length (Bits_iter (byte_digits a)) \<le> length (Bits_iter (byte_digits b))"
proof (cases "a = 0")
  case True
  have "Bits_iter (byte_digits b) \<noteq> []"
    by (simp add: Bits_iter_Nil_iff)
  then have "1 \<le> length (Bits_iter (byte_digits b))"
    by (cases "Bits_iter (byte_digits b)") simp_all
  then show ?thesis
    using True by simp
next
  case False
  then have a: "0 < a" and b: "0 < b"
    using assms by simp_all
  have "(2::int) ^ length (Bits_iter (byte_digits a)) \<le> 2 * a"
    using a by (rule Bits_iter_canonical)
  also have "\<dots> < 2 * 2 ^ length (Bits_iter (byte_digits b))"
    using Bits_iter_canonical(1) [OF b] assms(2) by simp
  finally have "(2::int) ^ length (Bits_iter (byte_digits a))
      < 2 ^ Suc (length (Bits_iter (byte_digits b)))"
    by simp
  then have "length (Bits_iter (byte_digits a)) < Suc (length (Bits_iter (byte_digits b)))"
    by (simp only: power_strict_increasing_iff [of "2::int"] one_less_numeral_iff semiring_norm)
  then show ?thesis
    by simp
qed

lemma subtractor_canonical:
  assumes "0 \<le> b" and "b \<le> a"
  shows "subtractor (byte_digits a) (byte_digits b) = a - b"
proof -
  let ?L = "length (Bits_iter (byte_digits a))"
  have max: "max ?L (length (Bits_iter (byte_digits b))) = ?L"
    using length_Bits_iter_mono [OF assms] by simp
  have "a < 2 ^ ?L"
  proof (cases "a = 0")
    case True
    then show ?thesis by simp
  next
    case False
    then have "0 < a"
      using assms by simp
    then show ?thesis
      by (rule Bits_iter_canonical)
  qed
  then have "(a - b) mod 2 ^ ?L = a - b"
    using assms by (intro mod_pos_pos_trivial) simp_all
  then show ?thesis
    using assms by (simp add: subtractor_eq max to_number_byte_digits)
qed

subsection \<open>Multiplier and divider\<close>

lemma to_number_nonneg: "0 \<le> to_number bs"
  using to_number_bounds [of bs] by simp

lemma length_Bits_iter_pos: "0 \<le> a \<Longrightarrow> a < 2 ^ length (Bits_iter (byte_digits a))"
proof (cases "a = 0")
  case True
  then show ?thesis by simp
next
  case False
  assume "0 \<le> a"
  with False have "0 < a"
    by simp
  then show ?thesis
    by (rule Bits_iter_canonical)
qed

lemma subtractor_exact:
  assumes "to_number m \<le> a"
  shows "subtractor (byte_digits a) m = a - to_number m"
proof -
  let ?L = "max (length (Bits_iter (byte_digits a))) (length (Bits_iter m))"
  have a: "0 \<le> a"
    using assms to_number_nonneg [of m] by simp
  have "a < 2 ^ length (Bits_iter (byte_digits a))"
    using a by (rule length_Bits_iter_pos)
  also have "\<dots> \<le> 2 ^ ?L"
    by (intro power_increasing) simp_all
  finally have "a - to_number m < 2 ^ ?L"
    using to_number_nonneg [of m] by simp
  then have "(a - to_number m) mod 2 ^ ?L = a - to_number m"
    using assms by (intro mod_pos_pos_trivial) simp_all
  then show ?thesis
    using a by (simp add: subtractor_eq to_number_byte_digits)
qed

lemma multiplier_body_eq:
  assumes "0 \<le> shifter"
  shows "multiplier_body n bit' (acc, shifter) =
     returnR (if bit' = 1 then byte_digits (to_number acc + to_number n * 2 ^ nat shifter) else acc,
              shifter + 1)"
proof -
  have sh: "0 \<le> to_number n * 2 ^ nat shifter"
    using to_number_nonneg [of n] by simp
  have "Bits_lshift n (byte_digits shifter) = returnR (byte_digits (to_number n * 2 ^ nat shifter))"
    using assms by (simp add: Bits_lshift_def Bits_new_eq to_number_byte_digits push_bit_eq_mult)
  then show ?thesis
    using sh by (simp add: Bits_new_eq adder_eq to_number_byte_digits)
qed

lemma foldR_multiplier_body:
  "set bs \<subseteq> {0, 1} \<Longrightarrow> 0 \<le> shifter \<Longrightarrow>
     \<exists>acc'. foldR (multiplier_body n) bs (acc, shifter) = returnR (acc', shifter + int (length bs))
       \<and> to_number acc' = to_number acc + to_number n * 2 ^ nat shifter * bl_val bs"
proof (induction bs arbitrary: acc shifter)
  case Nil
  then show ?case by simp
next
  case (Cons b bs)
  define acc1 where
    "acc1 = (if b = 1 then byte_digits (to_number acc + to_number n * 2 ^ nat shifter) else acc)"
  have b: "b = 0 \<or> b = 1"
    using Cons.prems(1) by auto
  have "0 \<le> to_number acc + to_number n * 2 ^ nat shifter"
    using to_number_nonneg [of acc] to_number_nonneg [of n] by simp
  then have acc1: "to_number acc1 = to_number acc + to_number n * 2 ^ nat shifter * b"
    using b by (auto simp: acc1_def to_number_byte_digits)
  have step: "foldR (multiplier_body n) (b # bs) (acc, shifter)
      = foldR (multiplier_body n) bs (acc1, shifter + 1)"
    using Cons.prems(2) by (simp add: multiplier_body_eq acc1_def del: multiplier_body.simps)
  obtain acc' where acc':
    "foldR (multiplier_body n) bs (acc1, shifter + 1) = returnR (acc', shifter + 1 + int (length bs))"
    "to_number acc' = to_number acc1 + to_number n * 2 ^ nat (shifter + 1) * bl_val bs"
    using Cons.IH [of "shifter + 1" acc1] Cons.prems by auto
  have "nat (shifter + 1) = Suc (nat shifter)"
    using Cons.prems(2) by simp
  then have "to_number acc' = to_number acc + to_number n * 2 ^ nat shifter * bl_val (b # bs)"
    using acc'(2) acc1 by (simp add: algebra_simps)
  then show ?case
    using acc'(1) step by (simp add: add.assoc)
qed

lemma multiplier_eq: "multiplier n m = returnR (to_number n * to_number m)"
proof -
  obtain acc' where
    "foldR (multiplier_body n) (Bits_iter m) (byte_digits 0, 0)
       = returnR (acc', 0 + int (length (Bits_iter m)))"
    "to_number acc' = to_number (byte_digits 0) + to_number n * 2 ^ nat 0 * bl_val (Bits_iter m)"
    using foldR_multiplier_body [OF Bits_iter_bits [of m], where shifter = 0 and n = n
        and acc = "byte_digits 0"] by auto
  then show ?thesis
    by (simp add: multiplier_def Bits_new_eq Bits_iter_val to_number_Cons)
qed

lemma divider_body_eq:
  assumes "b \<in> {0, 1}" and "0 \<le> rem"
  shows "divider_body m b (rem, quo) =
     returnR (if 2 * rem + b \<ge> to_number m then (2 * rem + b - to_number m, 2 * quo + 1)
              else (2 * rem + b, 2 * quo))"
proof -
  have rem2: "(if b \<noteq> 0 then push_bit 1 rem XOR push_bit 0 1 else push_bit 1 rem) = 2 * rem + b"
    using assms(1) by (auto simp: xor_one_eq)
  have quo2: "push_bit 1 quo XOR push_bit 0 1 = 2 * quo + 1"
    by (simp add: xor_one_eq)
  show ?thesis
    unfolding divider_body.simps Let_def rem2 quo2
    by (simp add: Bits_new_eq subtractor_exact)
qed

lemma foldR_divider_body:
  assumes "0 < to_number m"
  shows "set bs \<subseteq> {0, 1} \<Longrightarrow> 0 \<le> rem \<Longrightarrow> rem < to_number m \<Longrightarrow>
     foldR (divider_body m) bs (rem, quo) =
       returnR ((rem * 2 ^ length bs + bl_val (rev bs)) mod to_number m,
                quo * 2 ^ length bs + (rem * 2 ^ length bs + bl_val (rev bs)) div to_number m)"
proof (induction bs arbitrary: rem quo)
  case Nil
  then show ?case by simp
next
  case (Cons b bs)
  define d where "d = to_number m"
  define v where "v = bl_val (rev bs)"
  define l where "l = length bs"
  have b: "b \<in> {0, 1}" and bs: "set bs \<subseteq> {0, 1}"
    using Cons.prems(1) by auto
  have total: "rem * 2 ^ length (b # bs) + bl_val (rev (b # bs)) = (2 * rem + b) * 2 ^ l + v"
    by (simp add: bl_val_append v_def l_def algebra_simps)
  have d: "0 < d"
    using assms by (simp add: d_def)
  show ?case
  proof (cases "2 * rem + b \<ge> d")
    case True
    have r: "0 \<le> 2 * rem + b - d" "2 * rem + b - d < d"
      using True b Cons.prems(3) by (auto simp: d_def)
    have step: "foldR (divider_body m) (b # bs) (rem, quo)
        = foldR (divider_body m) bs (2 * rem + b - d, 2 * quo + 1)"
      using True by (simp add: divider_body_eq [OF b Cons.prems(2)] d_def del: divider_body.simps)
    have ih: "foldR (divider_body m) bs (2 * rem + b - d, 2 * quo + 1)
        = returnR (((2 * rem + b - d) * 2 ^ l + v) mod d,
                   (2 * quo + 1) * 2 ^ l + ((2 * rem + b - d) * 2 ^ l + v) div d)"
      using Cons.IH [OF bs, of "2 * rem + b - d" "2 * quo + 1"] r
      by (simp add: d_def v_def l_def)
    have split: "(2 * rem + b - d) * 2 ^ l + v = ((2 * rem + b) * 2 ^ l + v) + (- (2 ^ l)) * d"
      by (simp add: algebra_simps)
    have m: "((2 * rem + b - d) * 2 ^ l + v) mod d = ((2 * rem + b) * 2 ^ l + v) mod d"
      unfolding split by (rule mod_mult_self1)
    have dv: "((2 * rem + b - d) * 2 ^ l + v) div d = ((2 * rem + b) * 2 ^ l + v) div d - 2 ^ l"
      unfolding split using d by (simp add: div_mult_self1 del: mult_minus_left)
    show ?thesis
      unfolding step ih total m dv
      by (simp add: d_def l_def algebra_simps)
  next
    case False
    have r: "0 \<le> 2 * rem + b" "2 * rem + b < d"
      using False b Cons.prems(2) by auto
    have step: "foldR (divider_body m) (b # bs) (rem, quo)
        = foldR (divider_body m) bs (2 * rem + b, 2 * quo)"
      using False by (simp add: divider_body_eq [OF b Cons.prems(2)] d_def del: divider_body.simps)
    have ih: "foldR (divider_body m) bs (2 * rem + b, 2 * quo)
        = returnR (((2 * rem + b) * 2 ^ l + v) mod d,
                   (2 * quo) * 2 ^ l + ((2 * rem + b) * 2 ^ l + v) div d)"
      using Cons.IH [OF bs, of "2 * rem + b" "2 * quo"] r
      by (simp add: d_def v_def l_def)
    show ?thesis
      unfolding step ih total
      by (simp add: d_def l_def algebra_simps)
  qed
qed

lemma divider_eq:
  "divider n m =
     (if to_number m = 0 then raiseR ZeroDivisionError
      else returnR (to_number n div to_number m, to_number n mod to_number m))"
proof (cases "to_number m = 0")
  case True
  then show ?thesis
    by (simp add: divider_def)
next
  case False
  then have pos: "0 < to_number m"
    using to_number_nonneg [of m] by simp
  have "set (Bits_reversed n) \<subseteq> {0, 1}"
    using Bits_iter_bits [of n] by (simp add: Bits_reversed_def)
  then have "foldR (divider_body m) (Bits_reversed n) (0, 0) =
      returnR (bl_val (rev (Bits_reversed n)) mod to_number m,
               bl_val (rev (Bits_reversed n)) div to_number m)"
    using foldR_divider_body [OF pos, of "Bits_reversed n" 0 0] pos by simp
  then show ?thesis
    using False by (simp add: divider_def Bits_reversed_def Bits_iter_val)
qed

section \<open>The properties\<close>

text \<open>
  C5. Round trip: for every non-negative integer \<open>n\<close>, \<^verbatim>\<open>Bits(n)\<close> returns, and
  \<^verbatim>\<open>to_number\<close> of the object it returns is \<open>n\<close>.
\<close>

theorem to_number_Bits_new:
  "0 \<le> n \<Longrightarrow> bindR (Bits_new n) (\<lambda>v. returnR (to_number v)) = returnR n"
  by (simp add: Bits_new_eq to_number_byte_digits)

theorem to_number_Bits_new_witness:
  "(0::int) \<le> 131070 \<and> bindR (Bits_new 131070) (\<lambda>v. returnR (to_number v)) = returnR 131070"
  using to_number_Bits_new [of 131070] by simp

text \<open>
  C8. Canonical form: for every non-negative integer \<open>n\<close>, \<^verbatim>\<open>Bits(n)\<close> returns a byte
  sequence with at least one byte that encodes \<open>n\<close>; it is the single byte 0 when
  \<open>n = 0\<close>; its most significant (last) byte is not zero when \<open>n > 0\<close>; and no non-empty
  byte sequence with the same value is shorter.
\<close>

theorem Bits_new_canonical:
  "0 \<le> n \<Longrightarrow>
     \<exists>v. Bits_new n = returnR v \<and> 1 \<le> length v \<and> to_number v = n
       \<and> (n = 0 \<longrightarrow> v = [0]) \<and> (0 < n \<longrightarrow> last v \<noteq> 0)
       \<and> (\<forall>w. w \<noteq> [] \<and> to_number w = n \<longrightarrow> length v \<le> length w)"
proof -
  assume n: "0 \<le> n"
  have "1 \<le> length (byte_digits n)"
    by (cases "byte_digits n") simp_all
  moreover have "\<forall>w. w \<noteq> [] \<and> to_number w = n \<longrightarrow> length (byte_digits n) \<le> length w"
  proof (intro allI impI)
    fix w :: Bits
    assume w: "w \<noteq> [] \<and> to_number w = n"
    show "length (byte_digits n) \<le> length w"
    proof (cases "n = 0")
      case True
      then show ?thesis
        using w by (cases w) simp_all
    next
      case False
      then have "0 < n"
        using n by simp
      then show ?thesis
        using w by (intro byte_digits_minimal) simp_all
    qed
  qed
  ultimately show ?thesis
    using n last_byte_digits [of n] by (simp add: Bits_new_eq to_number_byte_digits)
qed

theorem Bits_new_canonical_witness:
  "(0::int) \<le> 65536 \<and> Bits_new 0 = returnR [0] \<and> Bits_new 65536 = returnR [0, 0, 1]
     \<and> length [0, 0, 1 :: byte] \<le> length [0, 0, 1, 0 :: byte]"
proof -
  obtain v where v: "Bits_new 0 = returnR v" "v = [0]"
    using Bits_new_canonical [of 0] by auto
  obtain u where u: "Bits_new 65536 = returnR u" "last u \<noteq> 0"
    "\<forall>w. w \<noteq> [] \<and> to_number w = 65536 \<longrightarrow> length u \<le> length w"
    using Bits_new_canonical [of 65536] by auto
  have "Bits_new 65536 = returnR [0, 0, 1]"
    by (simp add: Bits_new_eq byte_digits.simps)
  with u(1) have "u = [0, 0, 1]"
    by simp
  moreover have "to_number [0, 0, 1, 0] = 65536"
    by (simp add: to_number_Cons)
  ultimately have "length [0, 0, 1 :: byte] \<le> length [0, 0, 1, 0 :: byte]"
    using u(3) by simp
  then show ?thesis
    using v u(1) \<open>u = [0, 0, 1]\<close> by simp
qed

text \<open>
  C7. Length of the bit view: for every integer \<open>n > 0\<close>, the forward bit sequence of
  \<^verbatim>\<open>Bits(n)\<close> has exactly \<open>\<lceil>log\<^sub>2 (n + 1)\<rceil>\<close> bits, which is the bit length \<open>L\<close> of \<open>n\<close>
  (\<open>2\<^sup>L \<le> 2 n\<close> and \<open>n < 2\<^sup>L\<close>), and its last, most significant bit is 1, so there is no
  extraneous high zero bit. For \<open>n = 0\<close> the bit sequence is the single bit 0.
\<close>

theorem length_Bits_iter:
  "(0 < n \<longrightarrow>
      (\<exists>v. Bits_new n = returnR v
         \<and> int (length (Bits_iter v)) = \<lceil>log 2 (real_of_int n + 1)\<rceil>
         \<and> n < 2 ^ length (Bits_iter v) \<and> 2 ^ length (Bits_iter v) \<le> 2 * n
         \<and> last (Bits_iter v) = 1))
   \<and> (\<exists>z. Bits_new 0 = returnR z \<and> Bits_iter z = [0])"
proof (intro conjI impI)
  assume n: "0 < n"
  define L where "L = length (Bits_iter (byte_digits n))"
  have up: "n < 2 ^ L" and low: "2 ^ L \<le> 2 * n" and ne: "Bits_iter (byte_digits n) \<noteq> []"
    and lst: "last (Bits_iter (byte_digits n)) = 1"
    using Bits_iter_canonical [OF n] by (simp_all add: L_def)
  obtain j where j: "L = Suc j"
    using ne by (cases L) (simp_all add: L_def)
  define k where "k = nat n + 1"
  have "int (2 ^ j) < int k"
    using low n by (simp add: j k_def)
  then have 1: "2 ^ j < k"
    by (simp only: of_nat_less_iff)
  have "int k \<le> int (2 ^ (j + 1))"
    using up n by (simp add: j k_def)
  then have 2: "k \<le> 2 ^ (j + 1)"
    by (simp only: of_nat_le_iff)
  have "\<lceil>log (real 2) (real k)\<rceil> = int j + 1"
    using 1 2 by (rule ceiling_log_nat_eq_if) simp
  moreover have "real k = real_of_int n + 1"
    using n by (simp add: k_def)
  ultimately have "int L = \<lceil>log 2 (real_of_int n + 1)\<rceil>"
    by (simp add: j)
  then show "\<exists>v. Bits_new n = returnR v
         \<and> int (length (Bits_iter v)) = \<lceil>log 2 (real_of_int n + 1)\<rceil>
         \<and> n < 2 ^ length (Bits_iter v) \<and> 2 ^ length (Bits_iter v) \<le> 2 * n
         \<and> last (Bits_iter v) = 1"
    using up low lst by (simp add: Bits_new_eq L_def)
next
  show "\<exists>z. Bits_new 0 = returnR z \<and> Bits_iter z = [0]"
    by (simp add: Bits_new_eq)
qed

theorem length_Bits_iter_witness:
  "(0::int) < 131070 \<and> Bits_new 131070 = returnR [254, 255, 1]
     \<and> Bits_iter [254, 255, 1] = [0, 1, 1, 1, 1, 1, 1, 1, 1, 1, 1, 1, 1, 1, 1, 1, 1]
     \<and> \<lceil>log 2 (131071 :: real)\<rceil> = 17"
proof -
  have new: "Bits_new 131070 = returnR [254, 255, 1]"
    by (simp add: Bits_new_eq byte_digits.simps)
  have iter: "Bits_iter [254, 255, 1] = [0, 1, 1, 1, 1, 1, 1, 1, 1, 1, 1, 1, 1, 1, 1, 1, 1]"
    by code_simp
  obtain v where v: "Bits_new 131070 = returnR v"
    "int (length (Bits_iter v)) = \<lceil>log 2 (real_of_int 131070 + 1)\<rceil>"
    using length_Bits_iter [of 131070] by auto
  from v(1) new have "v = [254, 255, 1]"
    by simp
  with v(2) iter have "\<lceil>log 2 (131071 :: real)\<rceil> = 17"
    by simp
  then show ?thesis
    using new iter by simp
qed

text \<open>
  C9. Reversal: for every byte sequence \<open>v\<close>, the reversed traversal \<^verbatim>\<open>reversed(v)\<close> is the
  forward bit sequence \<^verbatim>\<open>list(v)\<close> read backwards. (\<^verbatim>\<open>__reversed__\<close> is written that way:
  it materialises the forward sequence and yields it from the end.)
\<close>

theorem Bits_reversed_rev: "Bits_reversed v = rev (Bits_iter v)"
  by (simp add: Bits_reversed_def)

text \<open>
  C2. Addition: for all non-negative integers \<open>a\<close> and \<open>b\<close>,
  \<^verbatim>\<open>adder(Bits(a), Bits(b))\<close> returns \<open>a + b\<close>; for every byte sequence \<open>x\<close>,
  \<^verbatim>\<open>adder(x, Bits(0))\<close> returns \<^verbatim>\<open>x.to_number()\<close>; and \<^verbatim>\<open>adder\<close> is commutative:
  \<^verbatim>\<open>adder(x, y)\<close> and \<^verbatim>\<open>adder(y, x)\<close> have the same outcome.
\<close>

theorem adder_sum:
  "(0 \<le> a \<and> 0 \<le> b \<longrightarrow>
      bindR (Bits_new a) (\<lambda>x. bindR (Bits_new b) (\<lambda>y. adder x y)) = returnR (a + b))
   \<and> bindR (Bits_new 0) (\<lambda>z. adder x z) = returnR (to_number x)
   \<and> adder x y = adder y x"
proof (intro conjI impI)
  assume "0 \<le> a \<and> 0 \<le> b"
  then show "bindR (Bits_new a) (\<lambda>x. bindR (Bits_new b) (\<lambda>y. adder x y)) = returnR (a + b)"
    by (simp add: Bits_new_eq adder_eq to_number_byte_digits)
next
  show "bindR (Bits_new 0) (\<lambda>z. adder x z) = returnR (to_number x)"
    by (simp add: Bits_new_eq adder_eq to_number_Cons)
next
  show "adder x y = adder y x"
    by (auto simp: adder_eq)
qed

theorem adder_sum_witness:
  "(0::int) \<le> 255 \<and> (0::int) \<le> 1
   \<and> bindR (Bits_new 255) (\<lambda>x. bindR (Bits_new 1) (\<lambda>y. adder x y)) = returnR 256
   \<and> bindR (Bits_new 0) (\<lambda>z. adder [5] z) = returnR 5
   \<and> adder [5] [12] = adder [12] [5]"
proof -
  have "to_number [5] = 5"
    by (simp add: to_number_Cons)
  then show ?thesis
    using adder_sum [of 255 1 "[5]" "[12]"] by simp
qed

text \<open>
  C3. Subtraction: for all integers \<open>a \<ge> b \<ge> 0\<close>, \<^verbatim>\<open>subtractor(Bits(a), Bits(b))\<close> returns
  \<open>a - b\<close>; equivalently, the result plus \<open>b\<close> is \<open>a\<close>.
\<close>

theorem subtractor_difference:
  "0 \<le> b \<Longrightarrow> b \<le> a \<Longrightarrow>
     bindR (Bits_new a) (\<lambda>x. bindR (Bits_new b) (\<lambda>y. returnR (subtractor x y))) = returnR (a - b)
     \<and> bindR (Bits_new a) (\<lambda>x. bindR (Bits_new b) (\<lambda>y. returnR (subtractor x y + b))) = returnR a"
  by (simp add: Bits_new_eq subtractor_exact to_number_byte_digits)

theorem subtractor_difference_witness:
  "(0::int) \<le> 1 \<and> (1::int) \<le> 256
   \<and> bindR (Bits_new 256) (\<lambda>x. bindR (Bits_new 1) (\<lambda>y. returnR (subtractor x y))) = returnR 255
   \<and> bindR (Bits_new 256) (\<lambda>x. bindR (Bits_new 1) (\<lambda>y. returnR (subtractor x y + 1))) = returnR 256"
  using subtractor_difference [of 1 256] by simp

text \<open>
  C4. Multiplication: for all non-negative integers \<open>a\<close> and \<open>b\<close>,
  \<^verbatim>\<open>multiplier(Bits(a), Bits(b))\<close> returns \<open>a * b\<close>; with \<^verbatim>\<open>Bits(0)\<close> as either operand
  the result is 0; and \<^verbatim>\<open>multiplier(x, Bits(1))\<close> returns \<^verbatim>\<open>x.to_number()\<close>.
\<close>

theorem multiplier_product:
  "(0 \<le> a \<and> 0 \<le> b \<longrightarrow>
      bindR (Bits_new a) (\<lambda>x. bindR (Bits_new b) (\<lambda>y. multiplier x y)) = returnR (a * b))
   \<and> bindR (Bits_new 0) (\<lambda>z. multiplier x z) = returnR 0
   \<and> bindR (Bits_new 0) (\<lambda>z. multiplier z x) = returnR 0
   \<and> bindR (Bits_new 1) (\<lambda>z. multiplier x z) = returnR (to_number x)"
  by (simp add: Bits_new_eq multiplier_eq to_number_byte_digits to_number_Cons)

theorem multiplier_product_witness:
  "(0::int) \<le> 127 \<and> (0::int) \<le> 2
   \<and> bindR (Bits_new 127) (\<lambda>x. bindR (Bits_new 2) (\<lambda>y. multiplier x y)) = returnR 254
   \<and> bindR (Bits_new 0) (\<lambda>z. multiplier [7] z) = returnR 0
   \<and> bindR (Bits_new 0) (\<lambda>z. multiplier z [7]) = returnR 0
   \<and> bindR (Bits_new 1) (\<lambda>z. multiplier [7] z) = returnR 7"
proof -
  have "to_number [7] = 7"
    by (simp add: to_number_Cons)
  then show ?thesis
    using multiplier_product [of 127 2 "[7]"] by simp
qed

text \<open>
  C1. Division: for every non-negative integer \<open>n\<close> and every positive integer \<open>m\<close>,
  \<^verbatim>\<open>divider(Bits(n), Bits(m))\<close> returns a pair \<open>(q, r)\<close> of non-negative integers with
  \<open>q * m + r = n\<close> and \<open>r < m\<close>.
\<close>

theorem divider_quotient_remainder:
  assumes "0 \<le> n" and "0 < m"
  shows "\<exists>q r. bindR (Bits_new n) (\<lambda>x. bindR (Bits_new m) (\<lambda>y. divider x y)) = returnR (q, r)
           \<and> 0 \<le> q \<and> 0 \<le> r \<and> q * m + r = n \<and> r < m"
proof -
  have "bindR (Bits_new n) (\<lambda>x. bindR (Bits_new m) (\<lambda>y. divider x y))
      = returnR (n div m, n mod m)"
    using assms by (simp add: Bits_new_eq divider_eq to_number_byte_digits)
  moreover have "0 \<le> n div m"
    using assms by (simp add: pos_imp_zdiv_nonneg_iff)
  moreover have "0 \<le> n mod m" "n mod m < m"
    using assms by simp_all
  moreover have "n div m * m + n mod m = n"
    by simp
  ultimately show ?thesis
    by blast
qed

theorem divider_quotient_remainder_witness:
  "(0::int) \<le> 513 \<and> (0::int) < 4
   \<and> bindR (Bits_new 513) (\<lambda>x. bindR (Bits_new 4) (\<lambda>y. divider x y)) = returnR (128, 1)"
proof -
  obtain q r :: int where qr:
    "bindR (Bits_new 513) (\<lambda>x. bindR (Bits_new 4) (\<lambda>y. divider x y)) = returnR (q, r)"
    "0 \<le> r" "q * 4 + r = 513" "r < 4"
    using divider_quotient_remainder [of 513 4] by auto
  then have "q = 128" "r = 1"
    by presburger+
  then show ?thesis
    using qr(1) by simp
qed

text \<open>
  C6. Division by zero: for all byte sequences \<open>n\<close> and \<open>m\<close>, \<^verbatim>\<open>divider(n, m)\<close> raises
  ZeroDivisionError if and only if the value of \<open>m\<close> is zero. When the value is zero
  the outcome is the exception whatever \<open>n\<close> is (the check comes before the loop over
  the bits of \<open>n\<close>, so no quotient or remainder is produced), in particular for
  \<^verbatim>\<open>m = Bits(0)\<close>; when it is not zero the call returns a pair, so nothing else makes
  \<^verbatim>\<open>divider\<close> fail.
\<close>

theorem divider_ZeroDivisionError:
  "(divider n m = raiseR ZeroDivisionError \<longleftrightarrow> to_number m = 0)
   \<and> (to_number m \<noteq> 0 \<longrightarrow> (\<exists>q r. divider n m = returnR (q, r)))
   \<and> bindR (Bits_new 0) (\<lambda>z. divider n z) = raiseR ZeroDivisionError"
  by (simp add: divider_eq Bits_new_eq to_number_Cons)

theorem divider_ZeroDivisionError_witness:
  "divider [1] [0] = raiseR ZeroDivisionError
   \<and> to_number [3] \<noteq> 0 \<and> (\<exists>q r. divider [11] [3] = returnR (q, r))
   \<and> divider [11] [3] \<noteq> raiseR ZeroDivisionError
   \<and> bindR (Bits_new 0) (\<lambda>z. divider [1] z) = raiseR ZeroDivisionError"
proof -
  have z: "to_number [0] = 0" and t: "to_number [3] \<noteq> 0"
    by (simp_all add: to_number_Cons)
  show ?thesis
    using divider_ZeroDivisionError [of "[1]" "[0]"] divider_ZeroDivisionError [of "[11]" "[3]"] z t
    by simp
qed

text \<open>
  C10. Subtraction below zero: for all integers \<open>0 \<le> n < m\<close>,
  \<^verbatim>\<open>subtractor(Bits(n), Bits(m))\<close> returns \<open>(n - m) mod 2\<^sup>L\<close>, where \<open>L\<close> is the number of
  bits of \<^verbatim>\<open>Bits(m)\<close>, the longer operand, that is the bit length of \<open>m\<close>
  (\<open>2\<^sup>L \<le> 2 m\<close> and \<open>m < 2\<^sup>L\<close>); the result is non-negative and below \<open>2\<^sup>L\<close>.
\<close>

theorem subtractor_wraparound:
  assumes "0 \<le> n" and "n < m"
  shows "\<exists>y L. Bits_new m = returnR y \<and> L = length (Bits_iter y)
           \<and> m < 2 ^ L \<and> 2 ^ L \<le> 2 * m
           \<and> bindR (Bits_new n) (\<lambda>x. returnR (subtractor x y)) = returnR ((n - m) mod 2 ^ L)
           \<and> 0 \<le> (n - m) mod 2 ^ L \<and> (n - m) mod 2 ^ L < 2 ^ L"
proof -
  define L where "L = length (Bits_iter (byte_digits m))"
  have m: "0 < m"
    using assms by simp
  have "max (length (Bits_iter (byte_digits n))) L = L"
    using length_Bits_iter_mono [of n m] assms by (simp add: L_def)
  then have "subtractor (byte_digits n) (byte_digits m) = (n - m) mod 2 ^ L"
    using assms by (simp add: subtractor_eq to_number_byte_digits L_def)
  moreover have "m < 2 ^ L" "2 ^ L \<le> 2 * m"
    using Bits_iter_canonical [OF m] by (simp_all add: L_def)
  ultimately show ?thesis
    by (simp add: Bits_new_eq L_def)
qed

theorem subtractor_wraparound_witness:
  "(0::int) \<le> 5 \<and> (5::int) < 10 \<and> Bits_new 10 = returnR [10] \<and> length (Bits_iter [10]) = 4
   \<and> bindR (Bits_new 5) (\<lambda>x. returnR (subtractor x [10])) = returnR 11"
proof -
  have new: "Bits_new 10 = returnR [10]"
    by (simp add: Bits_new_eq byte_digits.simps)
  have len: "length (Bits_iter [10]) = 4"
    by code_simp
  obtain y L where y: "Bits_new 10 = returnR y" "L = length (Bits_iter y)"
    "bindR (Bits_new 5) (\<lambda>x. returnR (subtractor x y)) = returnR ((5 - 10) mod 2 ^ L)"
    using subtractor_wraparound [of 5 10] by auto
  from y(1) new have "y = [10]"
    by simp
  then show ?thesis
    using y(2,3) new len by simp
qed

end
